theory Spec2Isabelle
  imports Complex_Main "HOL-Library.Multiset" "HOL-Library.Sublist"
begin

section \<open>Python errors and primitive list operations\<close>

text \<open>
  The solver is Python code working on strings, lists, unbounded integers and a
  dictionary. A Python exception is a value of \<open>py_error\<close>; a function that can raise
  returns \<open>py_error + 'a\<close> with \<open>Inl\<close> for the exception.
\<close>

datatype py_error = IndexError | ValueError | ZeroDivisionError

text \<open>\<^verbatim>\<open>xs[i]\<close> for a non-negative index: IndexError out of range.\<close>

definition getitem :: "'a list \<Rightarrow> nat \<Rightarrow> py_error + 'a" where
  "getitem xs i = (if i < length xs then Inr (xs ! i) else Inl IndexError)"

text \<open>\<^verbatim>\<open>xs.index(v)\<close>: position of the first occurrence, ValueError when absent.\<close>

fun list_index :: "'a list \<Rightarrow> 'a \<Rightarrow> py_error + nat" where
  "list_index [] v = Inl ValueError"
| "list_index (x # xs) v =
     (if x = v then Inr 0
      else (case list_index xs v of Inl e \<Rightarrow> Inl e | Inr j \<Rightarrow> Inr (Suc j)))"

section \<open>Scorer of the computer-guessing program: \<open>compute_feedback\<close>\<close>

text \<open>
  First loop of \<^verbatim>\<open>compute_feedback\<close>: for each index, compare \<^verbatim>\<open>guess_digits[i]\<close> with
  \<^verbatim>\<open>secret_digits[i]\<close>; on a match count a bull and overwrite the two positions with
  the sentinels \<^verbatim>\<open>'x'\<close> and \<^verbatim>\<open>'y'\<close>.
\<close>

fun bulls_pass :: "nat list \<Rightarrow> char list \<Rightarrow> char list \<Rightarrow> int
    \<Rightarrow> py_error + (char list \<times> char list \<times> int)" where
  "bulls_pass [] secret_digits guess_digits bulls = Inr (secret_digits, guess_digits, bulls)"
| "bulls_pass (i # is) secret_digits guess_digits bulls =
     (case getitem guess_digits i of
        Inl e \<Rightarrow> Inl e
      | Inr g \<Rightarrow>
          (case getitem secret_digits i of
             Inl e \<Rightarrow> Inl e
           | Inr s \<Rightarrow>
               if g = s
               then bulls_pass is (secret_digits[i := CHR ''x'']) (guess_digits[i := CHR ''y''])
                      (bulls + 1)
               else bulls_pass is secret_digits guess_digits bulls))"

text \<open>
  Second loop: a guess position that is not the sentinel \<^verbatim>\<open>'y'\<close> and whose character
  occurs in \<^verbatim>\<open>secret_digits\<close> counts a cow, and the first occurrence in
  \<^verbatim>\<open>secret_digits\<close> is overwritten with \<^verbatim>\<open>'z'\<close>.
\<close>

fun cows_pass :: "nat list \<Rightarrow> char list \<Rightarrow> char list \<Rightarrow> int
    \<Rightarrow> py_error + (char list \<times> int)" where
  "cows_pass [] secret_digits guess_digits cows = Inr (secret_digits, cows)"
| "cows_pass (i # is) secret_digits guess_digits cows =
     (case getitem guess_digits i of
        Inl e \<Rightarrow> Inl e
      | Inr g \<Rightarrow>
          if g \<noteq> CHR ''y'' \<and> g \<in> set secret_digits
          then (case list_index secret_digits g of
                  Inl e \<Rightarrow> Inl e
                | Inr j \<Rightarrow> cows_pass is (secret_digits[j := CHR ''z'']) guess_digits (cows + 1))
          else cows_pass is secret_digits guess_digits cows)"

definition compute_feedback :: "string \<Rightarrow> string \<Rightarrow> py_error + (int \<times> int)" where
  "compute_feedback secret guess =
     (case bulls_pass [0..<4] secret guess 0 of
        Inl e \<Rightarrow> Inl e
      | Inr (secret_digits, guess_digits, bulls) \<Rightarrow>
          (case cows_pass [0..<4] secret_digits guess_digits 0 of
             Inl e \<Rightarrow> Inl e
           | Inr (secret_digits', cows) \<Rightarrow> Inr (bulls, cows)))"

section \<open>Scorer of the user-guessing program\<close>

text \<open>
  The second program has its own \<^verbatim>\<open>compute_feedback\<close>, by counting: bulls are the
  positions of \<^verbatim>\<open>zip(secret, guess)\<close> that agree, \<^verbatim>\<open>common\<close> sums over the distinct
  characters of the guess the smaller of the two occurrence counts, and cows are
  \<^verbatim>\<open>common - bulls\<close>. It indexes nothing, so it cannot raise.
\<close>

definition compute_feedback_user :: "string \<Rightarrow> string \<Rightarrow> int \<times> int" where
  "compute_feedback_user secret guess =
     (let bulls = sum_list (map (\<lambda>(s, g). if s = g then 1 else 0) (zip secret guess));
          common = (\<Sum>d \<in> set guess. int (min (count_list secret d) (count_list guess d)));
          cows = common - bulls
      in (bulls, cows))"

section \<open>CandidateFilter: \<open>filter_codes\<close>\<close>

text \<open>
  The variables of \<^verbatim>\<open>filter_codes\<close>: the caller's list \<^verbatim>\<open>possible_codes\<close> and the fresh
  list \<^verbatim>\<open>filtered\<close>. The loop body reads a code, scores it against the guess and, when
  both numbers agree with the feedback, appends the code to \<^verbatim>\<open>filtered\<close>. An exception
  of the scorer leaves the loop.
\<close>

record filter_vars =
  var_possible_codes :: "string list"
  var_filtered :: "string list"

fun filter_loop :: "string list \<Rightarrow> string \<Rightarrow> int \<Rightarrow> int \<Rightarrow> filter_vars
    \<Rightarrow> py_error + filter_vars" where
  "filter_loop [] guess bulls cows vars = Inr vars"
| "filter_loop (code # rest) guess bulls cows vars =
     (case compute_feedback code guess of
        Inl e \<Rightarrow> Inl e
      | Inr (b, c) \<Rightarrow>
          if b = bulls \<and> c = cows
          then filter_loop rest guess bulls cows (vars\<lparr>var_filtered := var_filtered vars @ [code]\<rparr>)
          else filter_loop rest guess bulls cows vars)"

text \<open>The final variables of a call, and the value the call returns.\<close>

definition filter_codes_vars :: "string list \<Rightarrow> string \<Rightarrow> int \<Rightarrow> int \<Rightarrow> py_error + filter_vars" where
  "filter_codes_vars possible_codes guess bulls cows =
     filter_loop possible_codes guess bulls cows
       \<lparr>var_possible_codes = possible_codes, var_filtered = []\<rparr>"

definition filter_codes :: "string list \<Rightarrow> string \<Rightarrow> int \<Rightarrow> int \<Rightarrow> py_error + string list" where
  "filter_codes possible_codes guess bulls cows =
     (case filter_codes_vars possible_codes guess bulls cows of
        Inl e \<Rightarrow> Inl e
      | Inr vars \<Rightarrow> Inr (var_filtered vars))"

section \<open>EntropyEstimator: \<open>calculate_entropy\<close>\<close>

text \<open>
  Python's \<^verbatim>\<open>float\<close> is taken as the type of real numbers: the arithmetic of
  \<^verbatim>\<open>calculate_entropy\<close> and \<^verbatim>\<open>find_best_guess\<close> is exact here and rounding is not
  modelled. The control flow and the exceptions are those of the program; the entropy
  values are not: the program's double can differ from the real number in the last
  bits. What is proved of the program below therefore uses of an entropy only that it
  is not negative, or is about inputs where every floating-point operation is exact.
  The true division \<^verbatim>\<open>count / total_codes\<close> raises ZeroDivisionError on a
  zero divisor and \<^verbatim>\<open>math.log2\<close> raises ValueError outside the positive numbers.
\<close>

definition truediv :: "int \<Rightarrow> int \<Rightarrow> py_error + real" where
  "truediv a b = (if b = 0 then Inl ZeroDivisionError else Inr (real_of_int a / real_of_int b))"

definition math_log2 :: "real \<Rightarrow> py_error + real" where
  "math_log2 x = (if x \<le> 0 then Inl ValueError else Inr (log 2 x))"

text \<open>
  The dictionary \<^verbatim>\<open>feedback_counts\<close> as an association list in insertion order, which is
  the order of \<^verbatim>\<open>values()\<close>: \<open>dict_get\<close> is \<^verbatim>\<open>d.get(key, default)\<close> and \<open>dict_set\<close> is
  \<^verbatim>\<open>d[key] = val\<close>, which overwrites in place or appends a new key at the end.
\<close>

fun dict_get :: "('k \<times> 'v) list \<Rightarrow> 'k \<Rightarrow> 'v \<Rightarrow> 'v" where
  "dict_get [] key dflt = dflt"
| "dict_get ((k, v) # d) key dflt = (if k = key then v else dict_get d key dflt)"

fun dict_set :: "('k \<times> 'v) list \<Rightarrow> 'k \<Rightarrow> 'v \<Rightarrow> ('k \<times> 'v) list" where
  "dict_set [] key val = [(key, val)]"
| "dict_set ((k, v) # d) key val =
     (if k = key then (k, val) # d else (k, v) # dict_set d key val)"

text \<open>The loop that counts the frequency of each feedback.\<close>

fun count_feedbacks :: "string list \<Rightarrow> string \<Rightarrow> ((int \<times> int) \<times> int) list
    \<Rightarrow> py_error + ((int \<times> int) \<times> int) list" where
  "count_feedbacks [] guess feedback_counts = Inr feedback_counts"
| "count_feedbacks (code # rest) guess feedback_counts =
     (case compute_feedback code guess of
        Inl e \<Rightarrow> Inl e
      | Inr feedback \<Rightarrow>
          count_feedbacks rest guess
            (dict_set feedback_counts feedback (dict_get feedback_counts feedback 0 + 1)))"

text \<open>The loop over \<^verbatim>\<open>feedback_counts.values()\<close> that accumulates the Shannon entropy.\<close>

fun entropy_sum :: "int list \<Rightarrow> int \<Rightarrow> real \<Rightarrow> py_error + real" where
  "entropy_sum [] total_codes entropy = Inr entropy"
| "entropy_sum (cnt # rest) total_codes entropy =
     (case truediv cnt total_codes of
        Inl e \<Rightarrow> Inl e
      | Inr probability \<Rightarrow>
          (case math_log2 probability of
             Inl e \<Rightarrow> Inl e
           | Inr l \<Rightarrow> entropy_sum rest total_codes (entropy - probability * l)))"

definition calculate_entropy :: "string list \<Rightarrow> string \<Rightarrow> py_error + real" where
  "calculate_entropy possible_codes guess =
     (let total_codes = int (length possible_codes) in
      if total_codes = 0 then Inr 0
      else (case count_feedbacks possible_codes guess [] of
              Inl e \<Rightarrow> Inl e
            | Inr feedback_counts \<Rightarrow> entropy_sum (map snd feedback_counts) total_codes 0))"

section \<open>GuessSelector: \<open>find_best_guess\<close>\<close>

text \<open>
  The loop over \<^verbatim>\<open>all_codes\<close> with its state \<^verbatim>\<open>max_entropy\<close>, \<^verbatim>\<open>best_guess\<close>. After the
  update the early-exit test compares the running maximum with
  \<^verbatim>\<open>math.log2(len(possible_codes))\<close>; \<^verbatim>\<open>break\<close> ends the recursion.
\<close>

fun select_loop :: "string list \<Rightarrow> string list \<Rightarrow> real \<Rightarrow> string
    \<Rightarrow> py_error + (string \<times> real)" where
  "select_loop possible_codes [] max_entropy best_guess = Inr (best_guess, max_entropy)"
| "select_loop possible_codes (guess # rest) max_entropy best_guess =
     (case calculate_entropy possible_codes guess of
        Inl e \<Rightarrow> Inl e
      | Inr entropy \<Rightarrow>
          (let (max_entropy', best_guess') =
                 (if entropy > max_entropy then (entropy, guess) else (max_entropy, best_guess))
           in (case math_log2 (real (length possible_codes)) of
                 Inl e \<Rightarrow> Inl e
               | Inr ceiling_bits \<Rightarrow>
                   if \<bar>max_entropy' - ceiling_bits\<bar> < 1 / 10 ^ 10
                   then Inr (best_guess', max_entropy')
                   else select_loop possible_codes rest max_entropy' best_guess')))"

text \<open>\<^verbatim>\<open>max_entropy\<close> starts at \<open>-1\<close> and \<^verbatim>\<open>best_guess\<close> at \<^verbatim>\<open>possible_codes[0]\<close>, which raises
  IndexError on an empty list.\<close>

definition find_best_guess :: "string list \<Rightarrow> string list \<Rightarrow> py_error + (string \<times> real)" where
  "find_best_guess possible_codes all_codes =
     (case getitem possible_codes 0 of
        Inl e \<Rightarrow> Inl e
      | Inr best_guess \<Rightarrow> select_loop possible_codes all_codes (- 1) best_guess)"

text \<open>
  The selector with early exit disabled: the same function with the \<^verbatim>\<open>if ...: break\<close>
  statement removed. It is not in the source; it is the reference the early-exit
  selector is compared with.
\<close>

fun select_loop_no_exit :: "string list \<Rightarrow> string list \<Rightarrow> real \<Rightarrow> string
    \<Rightarrow> py_error + (string \<times> real)" where
  "select_loop_no_exit possible_codes [] max_entropy best_guess = Inr (best_guess, max_entropy)"
| "select_loop_no_exit possible_codes (guess # rest) max_entropy best_guess =
     (case calculate_entropy possible_codes guess of
        Inl e \<Rightarrow> Inl e
      | Inr entropy \<Rightarrow>
          (let (max_entropy', best_guess') =
                 (if entropy > max_entropy then (entropy, guess) else (max_entropy, best_guess))
           in select_loop_no_exit possible_codes rest max_entropy' best_guess'))"

definition find_best_guess_no_exit :: "string list \<Rightarrow> string list \<Rightarrow> py_error + (string \<times> real)" where
  "find_best_guess_no_exit possible_codes all_codes =
     (case getitem possible_codes 0 of
        Inl e \<Rightarrow> Inl e
      | Inr best_guess \<Rightarrow> select_loop_no_exit possible_codes all_codes (- 1) best_guess)"

section \<open>Input classes\<close>

text \<open>A 4-character string of decimal digits; digits may repeat.\<close>

definition is_digit :: "char \<Rightarrow> bool" where
  "is_digit c = (c \<in> set ''0123456789'')"

definition digits4 :: "string \<Rightarrow> bool" where
  "digits4 s = (length s = 4 \<and> list_all is_digit s)"

section \<open>Auxiliary functions of the proofs\<close>

text \<open>
  What one iteration of the first loop writes at a position holding the secret character
  \<open>s\<close> and the guess character \<open>g\<close>, and what it adds to \<^verbatim>\<open>bulls\<close>.
\<close>

definition mark_s :: "char \<Rightarrow> char \<Rightarrow> char" where
  "mark_s s g = (if g = s then CHR ''x'' else s)"

definition mark_g :: "char \<Rightarrow> char \<Rightarrow> char" where
  "mark_g s g = (if g = s then CHR ''y'' else g)"

definition bull :: "char \<Rightarrow> char \<Rightarrow> int" where
  "bull s g = (if g = s then 1 else 0)"

text \<open>The total counterpart of \<open>list_index\<close>, and the second loop run over a list of guess
  characters instead of indices.\<close>

fun first_index :: "'a list \<Rightarrow> 'a \<Rightarrow> nat" where
  "first_index [] v = 0"
| "first_index (x # xs) v = (if x = v then 0 else Suc (first_index xs v))"

fun cows_list :: "char list \<Rightarrow> char list \<Rightarrow> int \<Rightarrow> char list \<times> int" where
  "cows_list [] sd c = (sd, c)"
| "cows_list (g # gs) sd c =
     (if g \<noteq> CHR ''y'' \<and> g \<in> set sd
      then cows_list gs (sd[first_index sd g := CHR ''z'']) (c + 1)
      else cows_list gs sd c)"

text \<open>The positions of a zipped pair of strings that differ, and those that agree.\<close>

definition ne_pairs :: "('a \<times> 'a) list \<Rightarrow> ('a \<times> 'a) list" where
  "ne_pairs ps = filter (\<lambda>(a, b). a \<noteq> b) ps"

definition eq_pairs :: "('a \<times> 'a) list \<Rightarrow> ('a \<times> 'a) list" where
  "eq_pairs ps = filter (\<lambda>(a, b). a = b) ps"

text \<open>The feedback of a candidate as a total function, and the counting loop run on a list
  of feedbacks.\<close>

definition score :: "string \<Rightarrow> string \<Rightarrow> int \<times> int" where
  "score code guess = (case compute_feedback code guess of Inl e \<Rightarrow> (0, 0) | Inr fb \<Rightarrow> fb)"

fun tally :: "'k list \<Rightarrow> ('k \<times> int) list \<Rightarrow> ('k \<times> int) list" where
  "tally [] d = d"
| "tally (f # fs) d = tally fs (dict_set d f (dict_get d f 0 + 1))"

text \<open>A dictionary \<open>d\<close> that tallies the list \<open>seen\<close>: one entry per distinct element, whose
  value is the number of occurrences.\<close>

definition tallied :: "('k \<times> int) list \<Rightarrow> 'k list \<Rightarrow> bool" where
  "tallied d seen \<longleftrightarrow>
     distinct (map fst d) \<and> set (map fst d) = set seen \<and>
     (\<forall>(k, v)\<in>set d. v = int (count_list seen k))"

text \<open>The entropy accumulated from the counts \<open>vs\<close> with total \<open>n\<close>, its distance
  \<open>surplus vs / n\<close> from the ceiling, and the entropy of a guess as a total function.\<close>

definition ent_terms :: "int list \<Rightarrow> int \<Rightarrow> real" where
  "ent_terms vs n =
     (\<Sum>v\<leftarrow>vs. - (real_of_int v / real_of_int n) * log 2 (real_of_int v / real_of_int n))"

definition surplus :: "int list \<Rightarrow> real" where
  "surplus vs = (\<Sum>v\<leftarrow>vs. real_of_int v * log 2 (real_of_int v))"

definition entropy_of :: "string list \<Rightarrow> string \<Rightarrow> real" where
  "entropy_of codes guess =
     ent_terms (map snd (tally (map (\<lambda>D. score D guess) codes) [])) (int (length codes))"


section \<open>The two loops of the scorer in closed form\<close>

lemma range4: "[0..<4] = [0, 1, 2, 3]"
  by (simp add: upt_rec)

lemma bulls_pass_step:
  "i < length sd \<Longrightarrow> i < length gd \<Longrightarrow>
   bulls_pass (i # is) sd gd b =
     bulls_pass is (sd[i := mark_s (sd ! i) (gd ! i)]) (gd[i := mark_g (sd ! i) (gd ! i)])
       (b + bull (sd ! i) (gd ! i))"
  by (simp add: getitem_def mark_s_def mark_g_def bull_def)

lemma bulls_pass_four:
  "bulls_pass [0..<4] (s0 # s1 # s2 # s3 # sr) (g0 # g1 # g2 # g3 # gr) b =
     Inr (mark_s s0 g0 # mark_s s1 g1 # mark_s s2 g2 # mark_s s3 g3 # sr,
          mark_g s0 g0 # mark_g s1 g1 # mark_g s2 g2 # mark_g s3 g3 # gr,
          b + bull s0 g0 + bull s1 g1 + bull s2 g2 + bull s3 g3)"
  unfolding range4
  by (simp add: bulls_pass_step del: bulls_pass.simps(2))

lemma list_index_first: "v \<in> set xs \<Longrightarrow> list_index xs v = Inr (first_index xs v)"
  by (induction xs) auto

lemma first_index_less: "v \<in> set xs \<Longrightarrow> first_index xs v < length xs"
  by (induction xs) auto

lemma nth_first_index: "v \<in> set xs \<Longrightarrow> xs ! first_index xs v = v"
  by (induction xs) auto

lemma cows_pass_nth:
  "\<forall>i\<in>set is. i < length gd \<Longrightarrow>
   cows_pass is sd gd c = Inr (cows_list (map (nth gd) is) sd c)"
  by (induction "is" arbitrary: sd c) (simp_all add: getitem_def list_index_first)

lemma compute_feedback_four:
  "compute_feedback (s0 # s1 # s2 # s3 # sr) (g0 # g1 # g2 # g3 # gr) =
     Inr (bull s0 g0 + bull s1 g1 + bull s2 g2 + bull s3 g3,
          snd (cows_list [mark_g s0 g0, mark_g s1 g1, mark_g s2 g2, mark_g s3 g3]
                 (mark_s s0 g0 # mark_s s1 g1 # mark_s s2 g2 # mark_s s3 g3 # sr) 0))"
proof -
  have "cows_pass [0..<4] sd (a # b # c # d # gr) 0 = Inr (cows_list [a, b, c, d] sd 0)"
    for sd a b c d
    by (subst cows_pass_nth) (simp_all add: range4)
  then show ?thesis
    by (simp add: compute_feedback_def bulls_pass_four case_prod_beta del: cows_list.simps)
qed

lemma cows_list_lower: "c \<le> snd (cows_list gs sd c)"
proof (induction gs arbitrary: sd c)
  case Nil
  show ?case by simp
next
  case (Cons g gs)
  have "c \<le> snd (cows_list gs sd' c)" and "c + 1 \<le> snd (cows_list gs sd' (c + 1))" for sd'
    using Cons.IH by blast+
  then show ?case
    by (simp add: order_trans [of c "c + 1"])
qed

lemma cows_list_upper:
  "snd (cows_list gs sd c) \<le> c + int (length (filter (\<lambda>g. g \<noteq> CHR ''y'') gs))"
proof (induction gs arbitrary: sd c)
  case Nil
  show ?case by simp
next
  case (Cons g gs)
  show ?case
    using Cons.IH [of sd c] Cons.IH [of "sd[first_index sd g := CHR ''z'']" "c + 1"]
    by auto
qed

lemma cows_list_mset:
  "CHR ''z'' \<notin> set gs \<Longrightarrow>
   snd (cows_list gs sd c) =
     c + int (size (mset (filter (\<lambda>g. g \<noteq> CHR ''y'') gs) \<inter># mset sd))"
proof (induction gs arbitrary: sd c)
  case Nil
  show ?case by simp
next
  case (Cons g gs)
  let ?G = "mset (filter (\<lambda>g. g \<noteq> CHR ''y'') gs)"
  from Cons.prems have z: "CHR ''z'' \<notin> set gs" and gz: "g \<noteq> CHR ''z''" by auto
  from z have zG: "CHR ''z'' \<notin># ?G" by simp
  show ?case
  proof (cases "g \<noteq> CHR ''y'' \<and> g \<in> set sd")
    case True
    then have gin: "g \<in># mset sd" by simp
    have upd: "mset (sd[first_index sd g := CHR ''z'']) = add_mset (CHR ''z'') (mset sd - {#g#})"
      using True by (simp add: mset_update first_index_less nth_first_index)
    have "?G \<inter># add_mset (CHR ''z'') (mset sd - {#g#}) = ?G \<inter># (mset sd - {#g#})"
      using zG by (rule inter_add_right1)
    moreover have "add_mset g ?G \<inter># mset sd = add_mset g (?G \<inter># (mset sd - {#g#}))"
      using gin by (rule inter_add_left2)
    ultimately show ?thesis
      using True Cons.IH [OF z, of "sd[first_index sd g := CHR ''z'']" "c + 1"] upd
      by simp
  next
    case False
    show ?thesis
    proof (cases "g = CHR ''y''")
      case True
      then show ?thesis using Cons.IH [OF z, of sd c] by simp
    next
      case ny: False
      with False have "g \<notin># mset sd" by simp
      then have "add_mset g ?G \<inter># mset sd = ?G \<inter># mset sd"
        by (rule inter_add_left1)
      then show ?thesis using False ny Cons.IH [OF z, of sd c] by simp
    qed
  qed
qed

section \<open>Totality and bounds of the scorer\<close>

lemma digit_not_sentinel:
  "is_digit c \<Longrightarrow> c \<noteq> CHR ''x'' \<and> c \<noteq> CHR ''y'' \<and> c \<noteq> CHR ''z''"
  by (auto simp: is_digit_def)

lemma four_or_more: "4 \<le> length xs \<Longrightarrow> \<exists>a b c d r. xs = a # b # c # d # r"
  by (auto simp: numeral_eq_Suc Suc_le_length_iff)

lemma exactly_four: "length xs = 4 \<Longrightarrow> \<exists>a b c d. xs = [a, b, c, d]"
  by (auto simp: numeral_eq_Suc length_Suc_conv)

lemma bull_range: "0 \<le> bull s g \<and> bull s g \<le> 1"
  by (simp add: bull_def)

lemma unmarked_or_bull:
  "int (length (filter (\<lambda>g. g \<noteq> CHR ''y'') [mark_g s g])) + bull s g \<le> 1"
  by (simp add: mark_g_def bull_def)

lemma unmarked_four:
  "int (length (filter (\<lambda>g. g \<noteq> CHR ''y'') [a, b, c, d])) =
     int (length (filter (\<lambda>g. g \<noteq> CHR ''y'') [a])) +
     int (length (filter (\<lambda>g. g \<noteq> CHR ''y'') [b])) +
     int (length (filter (\<lambda>g. g \<noteq> CHR ''y'') [c])) +
     int (length (filter (\<lambda>g. g \<noteq> CHR ''y'') [d]))"
  by simp

lemma compute_feedback_bounds:
  assumes "4 \<le> length secret" and "4 \<le> length guess"
  shows "\<exists>bulls cows. compute_feedback secret guess = Inr (bulls, cows) \<and>
           0 \<le> bulls \<and> bulls \<le> 4 \<and> 0 \<le> cows \<and> cows \<le> 4 \<and> bulls + cows \<le> 4"
proof -
  from assms(1) obtain s0 s1 s2 s3 sr where s: "secret = s0 # s1 # s2 # s3 # sr"
    using four_or_more by blast
  from assms(2) obtain g0 g1 g2 g3 gr where g: "guess = g0 # g1 # g2 # g3 # gr"
    using four_or_more by blast
  define bulls where "bulls = bull s0 g0 + bull s1 g1 + bull s2 g2 + bull s3 g3"
  define gd where "gd = [mark_g s0 g0, mark_g s1 g1, mark_g s2 g2, mark_g s3 g3]"
  define cows where
    "cows = snd (cows_list gd (mark_s s0 g0 # mark_s s1 g1 # mark_s s2 g2 # mark_s s3 g3 # sr) 0)"
  have res: "compute_feedback secret guess = Inr (bulls, cows)"
    by (simp only: s g compute_feedback_four bulls_def cows_def gd_def)
  have b0: "0 \<le> bulls" and b4: "bulls \<le> 4"
    using bull_range [of s0 g0] bull_range [of s1 g1] bull_range [of s2 g2] bull_range [of s3 g3]
    by (simp_all add: bulls_def)
  have c0: "0 \<le> cows"
    unfolding cows_def by (rule cows_list_lower)
  have "cows \<le> int (length (filter (\<lambda>g. g \<noteq> CHR ''y'') gd))"
    unfolding cows_def using cows_list_upper [of gd _ 0] by simp
  also have "\<dots> + bulls \<le> 4"
    unfolding gd_def bulls_def unmarked_four
    using unmarked_or_bull [of s0 g0] unmarked_or_bull [of s1 g1]
      unmarked_or_bull [of s2 g2] unmarked_or_bull [of s3 g3]
    by linarith
  finally have bc: "bulls + cows \<le> 4" by simp
  from bc b0 have "cows \<le> 4" by simp
  with res b0 b4 c0 bc show ?thesis by blast
qed

lemma compute_feedback_self:
  assumes "4 \<le> length A"
  shows "compute_feedback A A = Inr (4, 0)"
proof -
  from assms obtain a b c d r where A: "A = a # b # c # d # r"
    using four_or_more by blast
  show ?thesis
    by (simp add: A compute_feedback_four bull_def mark_g_def)
qed

section \<open>Marking against counting\<close>

lemma mset_fst_split:
  "mset (map fst ps) = mset (map fst (ne_pairs ps)) + mset (map fst (eq_pairs ps))"
  by (induction ps) (auto simp: ne_pairs_def eq_pairs_def)

lemma mset_snd_split:
  "mset (map snd ps) = mset (map snd (ne_pairs ps)) + mset (map fst (eq_pairs ps))"
  by (induction ps) (auto simp: ne_pairs_def eq_pairs_def)

lemma unmarked_guess:
  "CHR ''y'' \<notin> snd ` set ps \<Longrightarrow>
   filter (\<lambda>g. g \<noteq> CHR ''y'') (map (\<lambda>(s, g). mark_g s g) ps) = map snd (ne_pairs ps)"
  by (induction ps) (auto simp: ne_pairs_def mark_g_def)

lemma marked_secret:
  "mset (map (\<lambda>(s, g). mark_s s g) ps) =
     mset (map fst (ne_pairs ps)) + replicate_mset (length (eq_pairs ps)) (CHR ''x'')"
  by (induction ps) (auto simp: ne_pairs_def eq_pairs_def mark_s_def)

lemma bulls_count:
  "sum_list (map (\<lambda>(s, g). bull s g) ps) = int (length (eq_pairs ps))"
  by (induction ps) (auto simp: eq_pairs_def bull_def)

lemma inter_replicate_absent:
  "x \<notin># A \<Longrightarrow> A \<inter># (B + replicate_mset n x) = A \<inter># B"
  by (induction n) (simp_all add: inter_add_right1)

lemma inter_common_part: "(B + E) \<inter># (A + E) = (B \<inter># A) + (E :: 'a multiset)"
  by (rule multiset_eqI) simp

lemma size_inter_as_sum:
  "(\<Sum>d\<in>set g. int (min (count_list s d) (count_list g d))) = int (size (mset s \<inter># mset g))"
proof -
  have "size (mset s \<inter># mset g) = (\<Sum>d\<in>set s \<inter> set g. min (count_list s d) (count_list g d))"
    by (simp add: size_multiset_overloaded_eq count_mset)
  also have "\<dots> = (\<Sum>d\<in>set g. min (count_list s d) (count_list g d))"
  proof (rule sum.mono_neutral_left)
    show "\<forall>d\<in>set g - (set s \<inter> set g). min (count_list s d) (count_list g d) = 0"
    proof
      fix d assume "d \<in> set g - (set s \<inter> set g)"
      then have "d \<notin> set s" by blast
      then have "count_list s d = 0" by (simp add: count_list_0_iff)
      then show "min (count_list s d) (count_list g d) = 0" by simp
    qed
  qed simp_all
  finally show ?thesis by simp
qed

lemma bulls_user:
  "sum_list (map (\<lambda>(s, g). if s = g then 1 else 0) ps) = int (length (eq_pairs ps))"
  by (induction ps) (auto simp: eq_pairs_def)

lemma marking_equals_counting:
  assumes len: "length s = length g"
    and x: "CHR ''x'' \<notin> set g" and y: "CHR ''y'' \<notin> set g" and z: "CHR ''z'' \<notin> set g"
  shows "(sum_list (map (\<lambda>(s, g). bull s g) (zip s g)),
          snd (cows_list (map (\<lambda>(s, g). mark_g s g) (zip s g))
                 (map (\<lambda>(s, g). mark_s s g) (zip s g)) 0))
         = compute_feedback_user s g"
proof -
  define ps where "ps = zip s g"
  define A where "A = mset (map snd (ne_pairs ps))"
  define B where "B = mset (map fst (ne_pairs ps))"
  define E where "E = mset (map fst (eq_pairs ps))"
  have fst_ps: "map fst ps = s" and snd_ps: "map snd ps = g"
    using len by (simp_all add: ps_def)
  have sub: "set_mset A \<subseteq> set g"
  proof
    fix c assume "c \<in> set_mset A"
    then have "c \<in> snd ` set (ne_pairs ps)" by (simp add: A_def)
    then have "c \<in> snd ` set ps" by (auto simp: ne_pairs_def)
    then show "c \<in> set g" using snd_ps by (metis set_map)
  qed
  have zgd: "CHR ''z'' \<notin> set (map (\<lambda>(s, g). mark_g s g) ps)"
  proof
    assume "CHR ''z'' \<in> set (map (\<lambda>(s, g). mark_g s g) ps)"
    then obtain a b where ab: "(a, b) \<in> set ps" and m: "mark_g a b = CHR ''z''" by auto
    from ab have "b \<in> set (map snd ps)" by force
    with z snd_ps have "b \<noteq> CHR ''z''" by auto
    with m show False by (simp add: mark_g_def split: if_splits)
  qed
  have yps: "CHR ''y'' \<notin> snd ` set ps"
    using y snd_ps by (metis set_map)
  have xA: "CHR ''x'' \<notin># A"
    using x sub by blast
  have "snd (cows_list (map (\<lambda>(s, g). mark_g s g) ps) (map (\<lambda>(s, g). mark_s s g) ps) 0)
          = int (size (A \<inter># (B + replicate_mset (length (eq_pairs ps)) (CHR ''x''))))"
    by (simp only: cows_list_mset [OF zgd] unmarked_guess [OF yps] marked_secret A_def B_def)
  also have "\<dots> = int (size (A \<inter># B))"
    by (simp add: inter_replicate_absent [OF xA])
  finally have cows: "snd (cows_list (map (\<lambda>(s, g). mark_g s g) ps)
                        (map (\<lambda>(s, g). mark_s s g) ps) 0) = int (size (A \<inter># B))" .
  have "mset s \<inter># mset g = (B + E) \<inter># (A + E)"
    using mset_fst_split [of ps] mset_snd_split [of ps]
    by (simp add: fst_ps snd_ps A_def B_def E_def)
  also have "\<dots> = (A \<inter># B) + E"
    by (rule multiset_eqI) (simp add: min.commute)
  finally have "int (size (mset s \<inter># mset g)) = int (size (A \<inter># B)) + int (length (eq_pairs ps))"
    by (simp add: E_def)
  then have common: "(\<Sum>d\<in>set g. int (min (count_list s d) (count_list g d)))
                       - int (length (eq_pairs ps)) = int (size (A \<inter># B))"
    by (simp add: size_inter_as_sum)
  show ?thesis
    unfolding compute_feedback_user_def Let_def ps_def [symmetric]
    by (simp only: bulls_count bulls_user cows common)
qed

section \<open>The filter in closed form\<close>

text \<open>
  When every candidate and the guess have at least four characters the scorer never
  raises, and the loop appends to \<^verbatim>\<open>filtered\<close> exactly the candidates whose score is the
  given feedback; \<^verbatim>\<open>possible_codes\<close> is never written.
\<close>

lemma filter_loop_closed:
  assumes "\<forall>D\<in>set codes. 4 \<le> length D" and "4 \<le> length guess"
  shows "filter_loop codes guess bulls cows vars =
           Inr (vars\<lparr>var_filtered := var_filtered vars @
                  filter (\<lambda>D. compute_feedback D guess = Inr (bulls, cows)) codes\<rparr>)"
  using assms(1)
proof (induction codes arbitrary: vars)
  case Nil
  show ?case by simp
next
  case (Cons code rest)
  from Cons.prems have "4 \<le> length code" and rest: "\<forall>D\<in>set rest. 4 \<le> length D"
    by simp_all
  then obtain b c where fb: "compute_feedback code guess = Inr (b, c)"
    using compute_feedback_bounds [OF _ assms(2)] by blast
  show ?case
    by (simp add: fb Cons.IH [OF rest])
qed

lemma filter_codes_vars_closed:
  assumes "\<forall>D\<in>set codes. 4 \<le> length D" and "4 \<le> length guess"
  shows "filter_codes_vars codes guess bulls cows =
           Inr \<lparr>var_possible_codes = codes,
                var_filtered = filter (\<lambda>D. compute_feedback D guess = Inr (bulls, cows)) codes\<rparr>"
  by (simp add: filter_codes_vars_def filter_loop_closed [OF assms])

lemma filter_codes_closed:
  assumes "\<forall>D\<in>set codes. 4 \<le> length D" and "4 \<le> length guess"
  shows "filter_codes codes guess bulls cows =
           Inr (filter (\<lambda>D. compute_feedback D guess = Inr (bulls, cows)) codes)"
  by (simp add: filter_codes_def filter_codes_vars_closed [OF assms])

section \<open>Concrete evaluations\<close>

lemma fb_1234_1432: "compute_feedback ''1234'' ''1432'' = Inr (2, 2)"
  by code_simp
lemma fb_1234_1234: "compute_feedback ''1234'' ''1234'' = Inr (4, 0)"
  by code_simp
lemma fb_5678_1234: "compute_feedback ''5678'' ''1234'' = Inr (0, 0)"
  by code_simp
lemma fb_1243_1234: "compute_feedback ''1243'' ''1234'' = Inr (2, 2)"
  by code_simp
lemma fb_1122_2211: "compute_feedback ''1122'' ''2211'' = Inr (0, 4)"
  by code_simp
lemma fbu_1122_2211: "compute_feedback_user ''1122'' ''2211'' = (0, 4)"
  by code_simp
lemma fb_short: "compute_feedback ''123'' ''1234'' = Inl IndexError"
  by code_simp

section \<open>Properties of the scorer\<close>

text \<open>
  Claim C5. For all 4-character digit strings \<open>secret\<close> and \<open>guess\<close>,
  \<^verbatim>\<open>compute_feedback(secret, guess)\<close> returns a pair \<open>(bulls, cows)\<close> of integers with
  \<open>0 \<le> bulls \<le> 4\<close>, \<open>0 \<le> cows \<le> 4\<close> and \<open>bulls + cows \<le> 4\<close>.
\<close>

theorem compute_feedback_range:
  assumes "digits4 secret" and "digits4 guess"
  shows "\<exists>bulls cows. compute_feedback secret guess = Inr (bulls, cows) \<and>
           0 \<le> bulls \<and> bulls \<le> 4 \<and> 0 \<le> cows \<and> cows \<le> 4 \<and> bulls + cows \<le> 4"
  using assms by (intro compute_feedback_bounds) (simp_all add: digits4_def)

theorem compute_feedback_range_witness:
  "digits4 ''1234'' \<and> digits4 ''1432'' \<and>
   (\<exists>bulls cows. compute_feedback ''1234'' ''1432'' = Inr (bulls, cows) \<and>
      0 \<le> bulls \<and> bulls \<le> 4 \<and> 0 \<le> cows \<and> cows \<le> 4 \<and> bulls + cows \<le> 4)"
  using compute_feedback_range [of "''1234''" "''1432''"]
  by (simp add: digits4_def is_digit_def)

text \<open>
  Claim C9. For every 4-character digit string \<open>A\<close>, \<^verbatim>\<open>compute_feedback(A, A)\<close> is
  \<open>(4, 0)\<close>; the instance \<^verbatim>\<open>"1234"\<close> is the witness below.
\<close>

theorem compute_feedback_self_match:
  assumes "digits4 A"
  shows "compute_feedback A A = Inr (4, 0)"
  using assms by (intro compute_feedback_self) (simp add: digits4_def)

theorem compute_feedback_self_match_witness:
  "digits4 ''1234'' \<and> compute_feedback ''1234'' ''1234'' = Inr (4, 0)"
  using compute_feedback_self_match [of "''1234''"]
  by (simp add: digits4_def is_digit_def)

text \<open>
  Claim C4. For all 4-character digit strings \<open>secret\<close> and \<open>guess\<close>, repeated digits
  allowed, the marking scorer of the computer-guessing program and the counting scorer
  of the user-guessing program return the same pair \<open>(bulls, cows)\<close>.
\<close>

theorem scorers_agree:
  assumes "digits4 secret" and "digits4 guess"
  shows "compute_feedback secret guess = Inr (compute_feedback_user secret guess)"
proof -
  from assms(1) have "length secret = 4" by (simp add: digits4_def)
  then obtain s0 s1 s2 s3 where s: "secret = [s0, s1, s2, s3]"
    using exactly_four by blast
  from assms(2) have "length guess = 4" by (simp add: digits4_def)
  then obtain g0 g1 g2 g3 where g: "guess = [g0, g1, g2, g3]"
    using exactly_four by blast
  from assms(2) have "\<forall>c\<in>set guess. is_digit c"
    by (simp add: digits4_def list_all_iff)
  then have nx: "CHR ''x'' \<notin> set guess" and ny: "CHR ''y'' \<notin> set guess"
    and nz: "CHR ''z'' \<notin> set guess"
    using digit_not_sentinel by blast+
  have len: "length secret = length guess" by (simp add: s g)
  have "compute_feedback secret guess =
          Inr (sum_list (map (\<lambda>(s, g). bull s g) (zip secret guess)),
               snd (cows_list (map (\<lambda>(s, g). mark_g s g) (zip secret guess))
                      (map (\<lambda>(s, g). mark_s s g) (zip secret guess)) 0))"
    unfolding s g compute_feedback_four by simp
  then show ?thesis
    by (simp only: marking_equals_counting [OF len nx ny nz])
qed

theorem scorers_agree_witness:
  "digits4 ''1122'' \<and> digits4 ''2211'' \<and>
   compute_feedback ''1122'' ''2211'' = Inr (0, 4) \<and>
   compute_feedback_user ''1122'' ''2211'' = (0, 4)"
  using scorers_agree [of "''1122''" "''2211''"]
  by (simp add: digits4_def is_digit_def fbu_1122_2211)

section \<open>Properties of the filter\<close>

text \<open>
  Claim C1. For every list \<open>C\<close> of candidate codes, every guess \<open>g\<close> and every feedback
  \<open>(bulls, cows)\<close>, \<^verbatim>\<open>filter_codes(C, g, bulls, cows)\<close> returns exactly the codes \<open>D\<close> of
  \<open>C\<close> with \<^verbatim>\<open>compute_feedback(D, g) == (bulls, cows)\<close>: every retained code scores the
  given feedback and every removed code does not. Codes and guess are strings of at
  least four characters, which is what the scorer can index.
\<close>

theorem filter_codes_exact:
  assumes "\<forall>D\<in>set C. 4 \<le> length D" and "4 \<le> length g"
  shows "\<exists>R. filter_codes C g bulls cows = Inr R \<and>
           (\<forall>D. D \<in> set R \<longleftrightarrow> D \<in> set C \<and> compute_feedback D g = Inr (bulls, cows)) \<and>
           R = filter (\<lambda>D. compute_feedback D g = Inr (bulls, cows)) C"
  by (simp add: filter_codes_closed [OF assms])

theorem filter_codes_exact_witness:
  "4 \<le> length ''1234'' \<and> 4 \<le> length ''1243'' \<and> 4 \<le> length ''5678'' \<and>
   filter_codes [''1234'', ''1243'', ''5678''] ''1234'' 2 2 = Inr [''1243'']"
  using filter_codes_exact [of "[''1234'', ''1243'', ''5678'']" "''1234''" 2 2]
  by (simp add: fb_1234_1234 fb_1243_1234 fb_5678_1234)

text \<open>
  Claim C6. The list returned by \<^verbatim>\<open>filter_codes(C, g, bulls, cows)\<close> is a subsequence
  of \<open>C\<close>: its elements occur in \<open>C\<close>, in the same relative order, and none is added;
  the input list \<open>C\<close> is left unchanged; the candidates never regrow under filtering.
\<close>

theorem filter_codes_subseq:
  assumes "\<forall>D\<in>set C. 4 \<le> length D" and "4 \<le> length g"
  shows "\<exists>vars. filter_codes_vars C g bulls cows = Inr vars \<and>
           filter_codes C g bulls cows = Inr (var_filtered vars) \<and>
           var_possible_codes vars = C \<and>
           subseq (var_filtered vars) C \<and>
           set (var_filtered vars) \<subseteq> set C \<and>
           length (var_filtered vars) \<le> length C"
  by (simp add: filter_codes_closed [OF assms] filter_codes_vars_closed [OF assms])

theorem filter_codes_subseq_witness:
  "4 \<le> length ''1234'' \<and> 4 \<le> length ''1243'' \<and> 4 \<le> length ''5678'' \<and>
   filter_codes_vars [''1234'', ''1243'', ''5678''] ''1234'' 2 2 =
     Inr \<lparr>var_possible_codes = [''1234'', ''1243'', ''5678''], var_filtered = [''1243'']\<rparr> \<and>
   subseq [''1243''] [''1234'', ''1243'', ''5678'']"
  using filter_codes_subseq [of "[''1234'', ''1243'', ''5678'']" "''1234''" 2 2]
  by (simp add: filter_codes_vars_def fb_1234_1234 fb_1243_1234 fb_5678_1234)

text \<open>
  Claim C7. For every list \<open>C\<close> of 4-character digit strings, every guess \<open>g\<close> (a string
  of at least four characters) and every feedback with \<open>bulls + cows > 4\<close>, such as
  \<open>(3, 2)\<close>, \<^verbatim>\<open>filter_codes(C, g, bulls, cows)\<close> returns the empty list and raises
  nothing, because the scorer never returns a pair that sums to more than 4.
\<close>

theorem filter_codes_unreachable:
  assumes "\<forall>D\<in>set C. digits4 D" and "4 \<le> length g" and "bulls + cows > 4"
  shows "filter_codes C g bulls cows = Inr []"
proof -
  have wf: "\<forall>D\<in>set C. 4 \<le> length D"
    using assms(1) by (simp add: digits4_def)
  have "compute_feedback D g \<noteq> Inr (bulls, cows)" if "D \<in> set C" for D
  proof -
    from that wf have "4 \<le> length D" by blast
    then obtain b c where "compute_feedback D g = Inr (b, c)" and "b + c \<le> 4"
      using compute_feedback_bounds [OF _ assms(2)] by blast
    with assms(3) show ?thesis by auto
  qed
  then show ?thesis
    by (simp add: filter_codes_closed [OF wf assms(2)])
qed

theorem filter_codes_unreachable_witness:
  "digits4 ''1234'' \<and> digits4 ''1243'' \<and> digits4 ''5678'' \<and> (3::int) + 2 > 4 \<and>
   filter_codes [''1234'', ''1243'', ''5678''] ''1234'' 3 2 = Inr []"
  using filter_codes_unreachable [of "[''1234'', ''1243'', ''5678'']" "''1234''" 3 2]
  by (simp add: digits4_def is_digit_def)

section \<open>The feedback dictionary\<close>

text \<open>
  For candidates and a guess of at least four characters the counting loop never raises,
  and the dictionary it builds tallies the feedbacks of the candidates.
\<close>

lemma score_eq:
  "4 \<le> length code \<Longrightarrow> 4 \<le> length guess \<Longrightarrow>
   compute_feedback code guess = Inr (score code guess)"
  using compute_feedback_bounds [of code guess] by (auto simp: score_def)

lemma count_feedbacks_closed:
  assumes "\<forall>D\<in>set codes. 4 \<le> length D" and "4 \<le> length guess"
  shows "count_feedbacks codes guess d = Inr (tally (map (\<lambda>D. score D guess) codes) d)"
  using assms(1)
  by (induction codes arbitrary: d) (simp_all add: score_eq [OF _ assms(2)])

lemma dict_get_absent: "key \<notin> set (map fst d) \<Longrightarrow> dict_get d key dflt = dflt"
  by (induction d) auto

lemma dict_get_present:
  "distinct (map fst d) \<Longrightarrow> (key, v) \<in> set d \<Longrightarrow> dict_get d key dflt = v"
proof (induction d)
  case Nil
  then show ?case by simp
next
  case (Cons p d)
  obtain k w where p: "p = (k, w)" by (cases p)
  from Cons.prems have k: "k \<notin> set (map fst d)" and dd: "distinct (map fst d)"
    by (simp_all add: p)
  show ?case
  proof (cases "k = key")
    case True
    have "(key, v) \<notin> set d"
      using k True by (metis fst_conv image_eqI set_map)
    with Cons.prems(2) have "w = v" by (simp add: p True)
    with True show ?thesis by (simp add: p)
  next
    case False
    with Cons.prems(2) have "(key, v) \<in> set d" by (simp add: p)
    with False Cons.IH [OF dd] show ?thesis by (simp add: p)
  qed
qed

lemma dict_set_keys:
  "map fst (dict_set d key val) =
     (if key \<in> set (map fst d) then map fst d else map fst d @ [key])"
proof (induction d)
  case Nil
  show ?case by simp
next
  case (Cons p d)
  obtain k v where p: "p = (k, v)" by (cases p)
  show ?case
  proof (cases "k = key")
    case True
    then show ?thesis by (simp add: p)
  next
    case False
    then show ?thesis using Cons.IH by (simp add: p)
  qed
qed

lemma dict_set_distinct: "distinct (map fst d) \<Longrightarrow> distinct (map fst (dict_set d key val))"
  by (simp add: dict_set_keys)

lemma entry_key: "(k, v) \<in> set d \<Longrightarrow> k \<in> set (map fst d)"
  by force

lemma dict_set_entries:
  "distinct (map fst d) \<Longrightarrow>
   (k, v) \<in> set (dict_set d key val) \<longleftrightarrow>
     (k = key \<and> v = val) \<or> (k \<noteq> key \<and> (k, v) \<in> set d)"
proof (induction d)
  case Nil
  show ?case by simp
next
  case (Cons p d)
  obtain k0 v0 where p: "p = (k0, v0)" by (cases p)
  from Cons.prems have k0: "k0 \<notin> set (map fst d)" and dd: "distinct (map fst d)"
    by (simp_all add: p)
  show ?case
  proof (cases "k0 = key")
    case True
    have "(k, v) \<in> set d \<Longrightarrow> k \<noteq> key"
      using k0 True entry_key [of k v d] by blast
    then show ?thesis using True by (auto simp: p)
  next
    case False
    have "(k, v) \<in> set (dict_set (p # d) key val) \<longleftrightarrow>
            (k, v) = (k0, v0) \<or> (k, v) \<in> set (dict_set d key val)"
      using False by (simp add: p)
    also have "\<dots> \<longleftrightarrow> (k, v) = (k0, v0) \<or> (k = key \<and> v = val) \<or> (k \<noteq> key \<and> (k, v) \<in> set d)"
      by (simp only: Cons.IH [OF dd])
    also have "\<dots> \<longleftrightarrow> (k = key \<and> v = val) \<or> (k \<noteq> key \<and> (k, v) \<in> set (p # d))"
      using False by (auto simp: p)
    finally show ?thesis .
  qed
qed

lemma tallied_step:
  assumes "tallied d seen"
  shows "tallied (dict_set d f (dict_get d f 0 + 1)) (f # seen)"
proof -
  from assms have dd: "distinct (map fst d)" and keys: "set (map fst d) = set seen"
    and vals: "\<And>k v. (k, v) \<in> set d \<Longrightarrow> v = int (count_list seen k)"
    by (auto simp: tallied_def)
  have get: "dict_get d f 0 = int (count_list seen f)"
  proof (cases "f \<in> set (map fst d)")
    case True
    then obtain v where fv: "(f, v) \<in> set d" by auto
    then show ?thesis using dict_get_present [OF dd fv] vals by simp
  next
    case False
    then have "f \<notin> set seen" using keys by simp
    then show ?thesis using False by (simp add: dict_get_absent count_list_0_iff)
  qed
  let ?d' = "dict_set d f (dict_get d f 0 + 1)"
  have 1: "distinct (map fst ?d')"
    using dd by (rule dict_set_distinct)
  have 2: "set (map fst ?d') = set (f # seen)"
    using keys by (auto simp: dict_set_keys)
  have 3: "v = int (count_list (f # seen) k)" if "(k, v) \<in> set ?d'" for k v
  proof (cases "k = f")
    case True
    from that True have "v = dict_get d f 0 + 1"
      by (simp add: dict_set_entries [OF dd])
    then show ?thesis by (simp add: True get)
  next
    case False
    with that have "(k, v) \<in> set d" by (simp add: dict_set_entries [OF dd])
    with False vals show ?thesis by simp
  qed
  show ?thesis
    unfolding tallied_def using 1 2 3 by blast
qed

lemma tallied_tally: "tallied d seen \<Longrightarrow> tallied (tally fs d) (rev fs @ seen)"
proof (induction fs arbitrary: d seen)
  case Nil
  then show ?case by simp
next
  case (Cons f fs)
  from Cons.IH [OF tallied_step [OF Cons.prems, of f]] show ?case by simp
qed

lemma tallied_final: "tallied (tally fs []) (rev fs)"
  using tallied_tally [of "[]" "[]" fs] by (simp add: tallied_def)


lemma dict_bump_sum:
  "sum_list (map snd (dict_set d f (dict_get d f 0 + 1))) = sum_list (map snd d) + (1::int)"
proof (induction d)
  case Nil
  show ?case by simp
next
  case (Cons p d)
  obtain k v where p: "p = (k, v)" by (cases p)
  show ?case using Cons.IH by (simp add: p)
qed

lemma tally_sum:
  "sum_list (map snd (tally fs d)) = sum_list (map snd d) + int (length fs)"
  by (induction fs arbitrary: d) (simp_all add: dict_bump_sum)

lemma tallied_positive:
  assumes "tallied d seen" and "v \<in> set (map snd d)"
  shows "1 \<le> v"
proof -
  from assms(2) obtain k where kv: "(k, v) \<in> set d" by auto
  with assms(1) have v: "v = int (count_list seen k)" by (auto simp: tallied_def)
  from kv have "k \<in> set (map fst d)" by (rule entry_key)
  with assms(1) have "k \<in> set seen" by (simp add: tallied_def)
  then have "count_list seen k \<noteq> 0" by (simp add: count_list_0_iff)
  with v show ?thesis by simp
qed

lemma tallied_ones:
  assumes "tallied d seen"
  shows "(\<forall>v\<in>set (map snd d). v = 1) \<longleftrightarrow> distinct seen"
proof
  assume ones: "\<forall>v\<in>set (map snd d). v = 1"
  have "count (mset seen) k = (if k \<in> set seen then 1 else 0)" for k
  proof (cases "k \<in> set seen")
    case True
    with assms have "k \<in> set (map fst d)" by (simp add: tallied_def)
    then obtain v where kv: "(k, v) \<in> set d" by auto
    with assms have "v = int (count_list seen k)" by (auto simp: tallied_def)
    moreover from kv ones have "v = 1" by force
    ultimately show ?thesis using True by (simp add: count_mset)
  next
    case False
    then show ?thesis by (simp add: count_mset count_list_0_iff)
  qed
  then show "distinct seen" by (simp add: distinct_count_atmost_1)
next
  assume dist: "distinct seen"
  show "\<forall>v\<in>set (map snd d). v = 1"
  proof
    fix v assume "v \<in> set (map snd d)"
    then obtain k where kv: "(k, v) \<in> set d" by auto
    with assms have v: "v = int (count_list seen k)" by (auto simp: tallied_def)
    from kv have "k \<in> set (map fst d)" by (rule entry_key)
    with assms have "k \<in> set seen" by (simp add: tallied_def)
    with dist have "count (mset seen) k = 1" by (simp add: distinct_count_atmost_1)
    with v show "v = 1" by (simp add: count_mset)
  qed
qed

lemma tallied_length:
  assumes "tallied d seen"
  shows "length d = card (set seen)"
proof -
  from assms have "distinct (map fst d)" and "set (map fst d) = set seen"
    by (simp_all add: tallied_def)
  then show ?thesis using distinct_card [of "map fst d"] by simp
qed

section \<open>The entropy in closed form\<close>

text \<open>
  With counts \<open>vs\<close> that are positive and sum to \<open>n\<close>, the accumulated entropy is
  \<open>log 2 n - surplus vs / n\<close>. The surplus is zero when every count is 1 and at least
  \<open>n / 25\<close> otherwise, since there are at most 25 feedback pairs.
\<close>

lemma entropy_sum_closed:
  assumes "0 < n" and "\<forall>v\<in>set vs. 1 \<le> v"
  shows "entropy_sum vs n e = Inr (e + ent_terms vs n)"
  using assms(2)
proof (induction vs arbitrary: e)
  case Nil
  show ?case by (simp add: ent_terms_def)
next
  case (Cons v vs)
  from Cons.prems have v: "1 \<le> v" and rest: "\<forall>v\<in>set vs. 1 \<le> v" by simp_all
  from v assms(1) have pos: "0 < real_of_int v / real_of_int n" by simp
  have div: "truediv v n = Inr (real_of_int v / real_of_int n)"
    using assms(1) by (simp add: truediv_def)
  have lg: "math_log2 (real_of_int v / real_of_int n) = Inr (log 2 (real_of_int v / real_of_int n))"
    using pos by (simp add: math_log2_def)
  have "entropy_sum (v # vs) n e =
          entropy_sum vs n (e - real_of_int v / real_of_int n * log 2 (real_of_int v / real_of_int n))"
    by (simp add: div lg)
  also have "\<dots> = Inr (e - real_of_int v / real_of_int n * log 2 (real_of_int v / real_of_int n)
                       + ent_terms vs n)"
    by (rule Cons.IH [OF rest])
  finally show ?case by (simp add: ent_terms_def)
qed

lemma ent_term_split:
  assumes "0 < n" and "1 \<le> v"
  shows "- (real_of_int v / real_of_int n) * log 2 (real_of_int v / real_of_int n) =
           real_of_int v / real_of_int n * log 2 (real_of_int n)
           - real_of_int v * log 2 (real_of_int v) / real_of_int n"
proof -
  have h: "log 2 (real_of_int v / real_of_int n) = log 2 (real_of_int v) - log 2 (real_of_int n)"
    using assms by (simp add: log_divide)
  show ?thesis unfolding h by (simp add: algebra_simps diff_divide_distrib)
qed

lemma ent_terms_alt:
  assumes "0 < n" and "\<forall>v\<in>set vs. 1 \<le> v"
  shows "ent_terms vs n =
           real_of_int (sum_list vs) / real_of_int n * log 2 (real_of_int n)
           - surplus vs / real_of_int n"
  using assms(2)
proof (induction vs)
  case Nil
  show ?case by (simp add: ent_terms_def surplus_def)
next
  case (Cons v vs)
  from Cons.prems have v: "1 \<le> v" and rest: "\<forall>v\<in>set vs. 1 \<le> v" by simp_all
  have "ent_terms (v # vs) n =
          - (real_of_int v / real_of_int n) * log 2 (real_of_int v / real_of_int n)
          + ent_terms vs n"
    by (simp add: ent_terms_def)
  also have "\<dots> = (real_of_int v / real_of_int n * log 2 (real_of_int n)
                      - real_of_int v * log 2 (real_of_int v) / real_of_int n)
                    + (real_of_int (sum_list vs) / real_of_int n * log 2 (real_of_int n)
                      - surplus vs / real_of_int n)"
    by (simp only: ent_term_split [OF assms(1) v] Cons.IH [OF rest])
  also have "\<dots> = real_of_int (sum_list (v # vs)) / real_of_int n * log 2 (real_of_int n)
                    - surplus (v # vs) / real_of_int n"
    by (simp add: surplus_def algebra_simps add_divide_distrib)
  finally show ?case .
qed

lemma surplus_term_nonneg: "1 \<le> v \<Longrightarrow> 0 \<le> real_of_int v * log 2 (real_of_int v)"
  by simp

lemma surplus_term_big: "2 \<le> v \<Longrightarrow> real_of_int v \<le> real_of_int v * log 2 (real_of_int v)"
proof -
  assume v: "2 \<le> v"
  then have "log 2 2 \<le> log 2 (real_of_int v)"
    by (subst log_le_cancel_iff) simp_all
  then have "1 \<le> log 2 (real_of_int v)" by simp
  moreover from v have "0 \<le> real_of_int v" by simp
  ultimately show ?thesis
    using mult_left_mono [of 1 "log 2 (real_of_int v)" "real_of_int v"] by simp
qed

lemma surplus_nonneg: "\<forall>v\<in>set vs. 1 \<le> v \<Longrightarrow> 0 \<le> surplus vs"
  unfolding surplus_def
  by (induction vs) (simp_all add: surplus_term_nonneg)

lemma surplus_member:
  assumes "\<forall>v\<in>set vs. 1 \<le> v" and "w \<in> set vs"
  shows "real_of_int w * log 2 (real_of_int w) \<le> surplus vs"
  using assms
proof (induction vs)
  case Nil
  then show ?case by simp
next
  case (Cons v vs)
  from Cons.prems have v: "1 \<le> v" and rest: "\<forall>v\<in>set vs. 1 \<le> v" by simp_all
  have sv: "surplus (v # vs) = real_of_int v * log 2 (real_of_int v) + surplus vs"
    by (simp add: surplus_def)
  show ?case
  proof (cases "w = v")
    case True
    then show ?thesis using surplus_nonneg [OF rest] by (simp add: sv)
  next
    case False
    with Cons.prems have "w \<in> set vs" by simp
    from Cons.IH [OF rest this] surplus_term_nonneg [OF v] show ?thesis
      by (simp add: sv)
  qed
qed

lemma surplus_zero_iff:
  assumes "\<forall>v\<in>set vs. 1 \<le> v"
  shows "surplus vs = 0 \<longleftrightarrow> (\<forall>v\<in>set vs. v = 1)"
proof
  assume z: "surplus vs = 0"
  show "\<forall>v\<in>set vs. v = 1"
  proof
    fix v assume vin: "v \<in> set vs"
    show "v = 1"
    proof (rule ccontr)
      assume "v \<noteq> 1"
      with assms vin have "2 \<le> v" by force
      then have "real_of_int v \<le> real_of_int v * log 2 (real_of_int v)"
        by (rule surplus_term_big)
      also have "\<dots> \<le> surplus vs" by (rule surplus_member [OF assms vin])
      finally have "real_of_int v \<le> 0" using z by simp
      with \<open>2 \<le> v\<close> show False by simp
    qed
  qed
next
  assume "\<forall>v\<in>set vs. v = 1"
  then show "surplus vs = 0"
    unfolding surplus_def by (induction vs) simp_all
qed

lemma sum_list_bounded:
  "\<forall>v\<in>set vs. v \<le> (m::int) \<Longrightarrow> sum_list vs \<le> int (length vs) * m"
  by (induction vs) (simp_all add: algebra_simps)

lemma int_list_max: "vs \<noteq> [] \<Longrightarrow> \<exists>m\<in>set vs. \<forall>v\<in>set vs. v \<le> (m::int)"
proof -
  assume "vs \<noteq> []"
  then have "Max (set vs) \<in> set vs" and "\<forall>v\<in>set vs. v \<le> Max (set vs)"
    by (simp_all add: Max_in)
  then show ?thesis by blast
qed

lemma surplus_gap:
  assumes pos: "\<forall>v\<in>set vs. 1 \<le> v" and notone: "\<exists>v\<in>set vs. v \<noteq> 1"
    and len: "length vs \<le> 25"
  shows "real_of_int (sum_list vs) \<le> 25 * surplus vs"
proof -
  from notone have "vs \<noteq> []" by auto
  then obtain m where m: "m \<in> set vs" and mx: "\<forall>v\<in>set vs. v \<le> m"
    using int_list_max by blast
  from notone obtain w where "w \<in> set vs" and "w \<noteq> 1" by blast
  with pos have "2 \<le> w" by force
  with mx \<open>w \<in> set vs\<close> have m2: "2 \<le> m" by force
  have "sum_list vs \<le> int (length vs) * m"
    using mx by (rule sum_list_bounded)
  also have "\<dots> \<le> 25 * m"
    using len m2 by (intro mult_right_mono) simp_all
  finally have "real_of_int (sum_list vs) \<le> 25 * real_of_int m"
    by (metis of_int_le_iff of_int_mult of_int_numeral)
  also have "\<dots> \<le> 25 * (real_of_int m * log 2 (real_of_int m))"
    using surplus_term_big [OF m2] by simp
  also have "\<dots> \<le> 25 * surplus vs"
    using surplus_member [OF pos m] by simp
  finally show ?thesis .
qed

lemma tally_values:
  fixes fs :: "'k list"
  defines "vs \<equiv> map snd (tally fs [])"
  shows "\<forall>v\<in>set vs. 1 \<le> v" and "sum_list vs = int (length fs)"
    and "(\<forall>v\<in>set vs. v = 1) \<longleftrightarrow> distinct fs" and "length vs = card (set fs)"
proof -
  have t: "tallied (tally fs []) (rev fs)" by (rule tallied_final)
  show "\<forall>v\<in>set vs. 1 \<le> v"
    unfolding vs_def using tallied_positive [OF t] by blast
  show "sum_list vs = int (length fs)"
    unfolding vs_def using tally_sum [of fs "[]"] by simp
  show "(\<forall>v\<in>set vs. v = 1) \<longleftrightarrow> distinct fs"
    unfolding vs_def using tallied_ones [OF t] by simp
  show "length vs = card (set fs)"
    unfolding vs_def using tallied_length [OF t] by simp
qed

lemma calculate_entropy_closed:
  assumes "\<forall>D\<in>set codes. 4 \<le> length D" and "4 \<le> length guess" and "codes \<noteq> []"
  shows "calculate_entropy codes guess = Inr (entropy_of codes guess)"
proof -
  let ?fs = "map (\<lambda>D. score D guess) codes"
  have n: "0 < int (length codes)" using assms(3) by simp
  have "entropy_sum (map snd (tally ?fs [])) (int (length codes)) 0 =
          Inr (0 + ent_terms (map snd (tally ?fs [])) (int (length codes)))"
    using n tally_values(1) [of ?fs] by (rule entropy_sum_closed)
  then show ?thesis
    using assms(3)
    by (simp add: calculate_entropy_def count_feedbacks_closed [OF assms(1,2)] entropy_of_def)
qed

lemma entropy_of_alt:
  assumes "codes \<noteq> []"
  shows "entropy_of codes guess =
           log 2 (real (length codes))
           - surplus (map snd (tally (map (\<lambda>D. score D guess) codes) [])) / real (length codes)"
proof -
  let ?fs = "map (\<lambda>D. score D guess) codes"
  let ?vs = "map snd (tally ?fs [])"
  have n: "0 < int (length codes)" using assms by simp
  have "ent_terms ?vs (int (length codes)) =
          real_of_int (sum_list ?vs) / real_of_int (int (length codes))
            * log 2 (real_of_int (int (length codes)))
          - surplus ?vs / real_of_int (int (length codes))"
    using n tally_values(1) [of ?fs] by (rule ent_terms_alt)
  moreover have "sum_list ?vs = int (length codes)"
    using tally_values(2) [of ?fs] by simp
  ultimately show ?thesis
    using assms by (simp add: entropy_of_def)
qed

lemma entropy_of_upper:
  assumes "codes \<noteq> []"
  shows "entropy_of codes guess \<le> log 2 (real (length codes))"
proof -
  let ?vs = "map snd (tally (map (\<lambda>D. score D guess) codes) [])"
  have "0 \<le> surplus ?vs"
    using tally_values(1) by (rule surplus_nonneg)
  then have "0 \<le> surplus ?vs / real (length codes)" by simp
  then show ?thesis by (simp add: entropy_of_alt [OF assms])
qed

lemma entropy_of_max_iff:
  assumes "codes \<noteq> []"
  shows "entropy_of codes guess = log 2 (real (length codes)) \<longleftrightarrow>
           distinct (map (\<lambda>D. score D guess) codes)"
proof -
  let ?fs = "map (\<lambda>D. score D guess) codes"
  let ?vs = "map snd (tally ?fs [])"
  have "entropy_of codes guess = log 2 (real (length codes)) \<longleftrightarrow> surplus ?vs = 0"
    using assms by (simp add: entropy_of_alt [OF assms])
  also have "\<dots> \<longleftrightarrow> (\<forall>v\<in>set ?vs. v = 1)"
    using tally_values(1) by (rule surplus_zero_iff)
  also have "\<dots> \<longleftrightarrow> distinct ?fs"
    by (rule tally_values(3))
  finally show ?thesis .
qed

lemma score_range:
  assumes "4 \<le> length code" and "4 \<le> length guess"
  shows "score code guess \<in> {0..4} \<times> {0..4}"
proof -
  obtain b c where "compute_feedback code guess = Inr (b, c)"
    and "0 \<le> b" "b \<le> 4" "0 \<le> c" "c \<le> 4"
    using compute_feedback_bounds [OF assms] by blast
  then show ?thesis by (simp add: score_def)
qed

lemma entropy_of_gap:
  assumes wf: "\<forall>D\<in>set codes. 4 \<le> length D" and g: "4 \<le> length guess"
    and ne: "codes \<noteq> []"
    and notmax: "entropy_of codes guess \<noteq> log 2 (real (length codes))"
  shows "entropy_of codes guess \<le> log 2 (real (length codes)) - 1 / 25"
proof -
  let ?fs = "map (\<lambda>D. score D guess) codes"
  let ?vs = "map snd (tally ?fs [])"
  have pos: "\<forall>v\<in>set ?vs. 1 \<le> v" by (rule tally_values(1))
  have "surplus ?vs \<noteq> 0"
    using notmax by (simp add: entropy_of_alt [OF ne])
  then have notone: "\<exists>v\<in>set ?vs. v \<noteq> 1"
    using surplus_zero_iff [OF pos] by blast
  have "set ?fs \<subseteq> {0..4} \<times> {0..4}"
  proof
    fix f assume "f \<in> set ?fs"
    then obtain D where "D \<in> set codes" and f: "f = score D guess" by auto
    with wf have "4 \<le> length D" by blast
    then show "f \<in> {0..4} \<times> {0..4}" unfolding f using g by (rule score_range)
  qed
  then have "card (set ?fs) \<le> card (({0..4} \<times> {0..4}) :: (int \<times> int) set)"
    by (intro card_mono) simp_all
  also have "\<dots> = 25" by (simp add: card_cartesian_product)
  finally have len: "length ?vs \<le> 25"
    using tally_values(4) [of ?fs] by simp
  have "real_of_int (sum_list ?vs) \<le> 25 * surplus ?vs"
    using pos notone len by (rule surplus_gap)
  moreover have "sum_list ?vs = int (length codes)"
    using tally_values(2) [of ?fs] by simp
  ultimately have "real (length codes) \<le> 25 * surplus ?vs" by simp
  moreover have "0 < real (length codes)" using ne by simp
  ultimately have "1 / 25 \<le> surplus ?vs / real (length codes)"
    by (simp add: field_simps)
  then show ?thesis by (simp add: entropy_of_alt [OF ne])
qed

lemma int_member_le_sum:
  "\<forall>v\<in>set vs. (0::int) \<le> v \<Longrightarrow> w \<in> set vs \<Longrightarrow> w \<le> sum_list vs"
  by (induction vs) (auto simp: add_nonneg_nonneg sum_list_nonneg intro: add_increasing add_increasing2)

lemma ent_terms_nonneg:
  assumes "0 < n" and "\<forall>v\<in>set vs. 1 \<le> v \<and> v \<le> n"
  shows "0 \<le> ent_terms vs n"
  using assms(2)
proof (induction vs)
  case Nil
  show ?case by (simp add: ent_terms_def)
next
  case (Cons v vs)
  from Cons.prems have v: "1 \<le> v" "v \<le> n" and rest: "\<forall>v\<in>set vs. 1 \<le> v \<and> v \<le> n"
    by simp_all
  have p: "0 < real_of_int v / real_of_int n" "real_of_int v / real_of_int n \<le> 1"
    using v assms(1) by simp_all
  then have "log 2 (real_of_int v / real_of_int n) \<le> 0" by simp
  with p(1) have "real_of_int v / real_of_int n * log 2 (real_of_int v / real_of_int n) \<le> 0"
    by (intro mult_nonneg_nonpos) simp_all
  then have "0 \<le> - (real_of_int v / real_of_int n) * log 2 (real_of_int v / real_of_int n)"
    by simp
  with Cons.IH [OF rest] show ?case by (simp add: ent_terms_def)
qed

lemma entropy_of_nonneg: "0 \<le> entropy_of codes guess"
proof (cases "codes = []")
  case True
  then show ?thesis by (simp add: entropy_of_def ent_terms_def)
next
  case False
  let ?fs = "map (\<lambda>D. score D guess) codes"
  let ?vs = "map snd (tally ?fs [])"
  have pos: "\<forall>v\<in>set ?vs. 1 \<le> v" by (rule tally_values(1))
  have sum: "sum_list ?vs = int (length codes)" using tally_values(2) [of ?fs] by simp
  have "v \<le> int (length codes)" if "v \<in> set ?vs" for v
  proof -
    from pos have "\<forall>v\<in>set ?vs. 0 \<le> v" by force
    from int_member_le_sum [OF this that] sum show ?thesis by simp
  qed
  with pos have "\<forall>v\<in>set ?vs. 1 \<le> v \<and> v \<le> int (length codes)" by blast
  moreover have "0 < int (length codes)" using False by simp
  ultimately show ?thesis unfolding entropy_of_def by (intro ent_terms_nonneg)
qed

text \<open>
  Over the real numbers the entropy of a guess lies between 0 and \<open>log 2 |C|\<close> and meets
  the ceiling exactly when the candidates have pairwise distinct feedbacks.
\<close>

lemma calculate_entropy_real_bound:
  assumes "C \<noteq> []" and "\<forall>D\<in>set C. 4 \<le> length D" and "4 \<le> length g"
  shows "\<exists>e. calculate_entropy C g = Inr e \<and> 0 \<le> e \<and> e \<le> log 2 (real (length C)) \<and>
           (e = log 2 (real (length C)) \<longleftrightarrow> distinct (map (\<lambda>D. compute_feedback D g) C))"
proof -
  have "map (\<lambda>D. compute_feedback D g) C = map (\<lambda>D. Inr (score D g)) C"
    using assms(2,3) by (simp add: score_eq)
  also have "\<dots> = map Inr (map (\<lambda>D. score D g) C)" by simp
  finally have "distinct (map (\<lambda>D. compute_feedback D g) C) \<longleftrightarrow> distinct (map (\<lambda>D. score D g) C)"
    by (simp only: distinct_map) (auto simp: inj_on_def)
  then show ?thesis
    using calculate_entropy_closed [OF assms(2,3,1)] entropy_of_nonneg [of C g]
      entropy_of_upper [OF assms(1), of g] entropy_of_max_iff [OF assms(1), of g]
    by simp
qed

section \<open>The selector loop\<close>

lemma ceiling_defined:
  "codes \<noteq> [] \<Longrightarrow> math_log2 (real (length codes)) = Inr (log 2 (real (length codes)))"
  by (simp add: math_log2_def)

lemma ceiling_nonneg: "codes \<noteq> [] \<Longrightarrow> 0 \<le> log 2 (real (length codes))"
proof -
  assume "codes \<noteq> []"
  then obtain n where n: "length codes = Suc n"
    by (cases codes) simp_all
  have "log 2 1 \<le> log 2 (real (Suc n))"
    by (subst log_le_cancel_iff) simp_all
  then show ?thesis by (simp add: n)
qed

lemma select_loop_step:
  assumes "\<forall>D\<in>set codes. 4 \<le> length D" and "4 \<le> length guess" and "codes \<noteq> []"
  shows "select_loop codes (guess # rest) m b =
           (if \<bar>max m (entropy_of codes guess) - log 2 (real (length codes))\<bar> < 1 / 10 ^ 10
            then Inr (if entropy_of codes guess > m then guess else b, max m (entropy_of codes guess))
            else select_loop codes rest (max m (entropy_of codes guess))
                   (if entropy_of codes guess > m then guess else b))"
  by (simp add: calculate_entropy_closed [OF assms] ceiling_defined [OF assms(3)] max_def)

lemma no_exit_step:
  assumes "\<forall>D\<in>set codes. 4 \<le> length D" and "4 \<le> length guess" and "codes \<noteq> []"
  shows "select_loop_no_exit codes (guess # rest) m b =
           select_loop_no_exit codes rest (max m (entropy_of codes guess))
             (if entropy_of codes guess > m then guess else b)"
  by (simp add: calculate_entropy_closed [OF assms] max_def)

lemma no_exit_stable:
  assumes wf: "\<forall>D\<in>set codes. 4 \<le> length D" and ne: "codes \<noteq> []"
  shows "\<forall>h\<in>set G. 4 \<le> length h \<and> entropy_of codes h \<le> m \<Longrightarrow>
         select_loop_no_exit codes G m b = Inr (b, m)"
proof (induction G)
  case Nil
  show ?case by simp
next
  case (Cons g G)
  from Cons.prems have g: "4 \<le> length g" and le: "entropy_of codes g \<le> m"
    and rest: "\<forall>h\<in>set G. 4 \<le> length h \<and> entropy_of codes h \<le> m"
    by simp_all
  from le have "max m (entropy_of codes g) = m" and "\<not> entropy_of codes g > m" by simp_all
  then show ?case
    using Cons.IH [OF rest] by (simp only: no_exit_step [OF wf g ne] if_False)
qed

lemma select_loops_agree:
  assumes wf: "\<forall>D\<in>set codes. 4 \<le> length D" and ne: "codes \<noteq> []"
  shows "\<forall>h\<in>set G. 4 \<le> length h \<Longrightarrow> m \<le> log 2 (real (length codes)) \<Longrightarrow>
         \<not> \<bar>m - log 2 (real (length codes))\<bar> < 1 / 10 ^ 10 \<Longrightarrow>
         select_loop codes G m b = select_loop_no_exit codes G m b"
proof (induction G arbitrary: m b)
  case Nil
  show ?case by simp
next
  case (Cons g G)
  let ?L = "log 2 (real (length codes))"
  let ?e = "entropy_of codes g"
  let ?b' = "if ?e > m then g else b"
  from Cons.prems(1) have g: "4 \<le> length g" and rest: "\<forall>h\<in>set G. 4 \<le> length h"
    by simp_all
  have eL: "?e \<le> ?L" by (rule entropy_of_upper [OF ne])
  have mL: "max m ?e \<le> ?L" using Cons.prems(2) eL by simp
  show ?case
  proof (cases "\<bar>max m ?e - ?L\<bar> < 1 / 10 ^ 10")
    case True
    have big: "?e > m"
    proof (rule ccontr)
      assume "\<not> ?e > m"
      then have "max m ?e = m" by simp
      with True Cons.prems(3) show False by simp
    qed
    then have mx: "max m ?e = ?e" by simp
    have top: "?e = ?L"
    proof (rule ccontr)
      assume "?e \<noteq> ?L"
      then have "?e \<le> ?L - 1 / 25" by (rule entropy_of_gap [OF wf g ne])
      with True mx show False by simp
    qed
    have stable: "select_loop_no_exit codes G ?L g = Inr (g, ?L)"
    proof (rule no_exit_stable [OF wf ne])
      show "\<forall>h\<in>set G. 4 \<le> length h \<and> entropy_of codes h \<le> ?L"
        using rest entropy_of_upper [OF ne] by blast
    qed
    have "select_loop codes (g # G) m b = Inr (g, ?L)"
      unfolding select_loop_step [OF wf g ne] using True big mx top by simp
    moreover have "select_loop_no_exit codes (g # G) m b = Inr (g, ?L)"
      unfolding no_exit_step [OF wf g ne] using big stable mx top by simp
    ultimately show ?thesis by simp
  next
    case False
    have "select_loop codes (g # G) m b = select_loop codes G (max m ?e) ?b'"
      using False by (simp only: select_loop_step [OF wf g ne] if_False)
    also have "\<dots> = select_loop_no_exit codes G (max m ?e) ?b'"
      using rest mL False by (rule Cons.IH)
    also have "\<dots> = select_loop_no_exit codes (g # G) m b"
      by (simp only: no_exit_step [OF wf g ne])
    finally show ?thesis .
  qed
qed

lemma no_exit_first_max:
  assumes wf: "\<forall>D\<in>set codes. 4 \<le> length D" and ne: "codes \<noteq> []"
  shows "\<forall>h\<in>set G. 4 \<le> length h \<Longrightarrow>
         \<exists>b' m'. select_loop_no_exit codes G m b = Inr (b', m') \<and>
           ((b' = b \<and> m' = m \<and> (\<forall>h\<in>set G. entropy_of codes h \<le> m)) \<or>
            (\<exists>pre post. G = pre @ b' # post \<and> m' = entropy_of codes b' \<and> m < m' \<and>
               (\<forall>h\<in>set pre. entropy_of codes h < m') \<and>
               (\<forall>h\<in>set post. entropy_of codes h \<le> m')))"
proof (induction G arbitrary: m b)
  case Nil
  show ?case by simp
next
  case (Cons g G)
  let ?e = "entropy_of codes g"
  from Cons.prems have g: "4 \<le> length g" and rest: "\<forall>h\<in>set G. 4 \<le> length h"
    by simp_all
  show ?case
  proof (cases "?e > m")
    case True
    then have step: "select_loop_no_exit codes (g # G) m b = select_loop_no_exit codes G ?e g"
      unfolding no_exit_step [OF wf g ne] by (simp add: max_def)
    from Cons.IH [OF rest, of ?e g] obtain b' m' where
      res: "select_loop_no_exit codes G ?e g = Inr (b', m')" and
      alt: "(b' = g \<and> m' = ?e \<and> (\<forall>h\<in>set G. entropy_of codes h \<le> ?e)) \<or>
            (\<exists>pre post. G = pre @ b' # post \<and> m' = entropy_of codes b' \<and> ?e < m' \<and>
               (\<forall>h\<in>set pre. entropy_of codes h < m') \<and>
               (\<forall>h\<in>set post. entropy_of codes h \<le> m'))"
      by blast
    from alt have "\<exists>pre post. g # G = pre @ b' # post \<and> m' = entropy_of codes b' \<and> m < m' \<and>
               (\<forall>h\<in>set pre. entropy_of codes h < m') \<and>
               (\<forall>h\<in>set post. entropy_of codes h \<le> m')"
    proof
      assume a: "b' = g \<and> m' = ?e \<and> (\<forall>h\<in>set G. entropy_of codes h \<le> ?e)"
      then have "g # G = [] @ b' # G \<and> m' = entropy_of codes b' \<and> m < m' \<and>
               (\<forall>h\<in>set []. entropy_of codes h < m') \<and>
               (\<forall>h\<in>set G. entropy_of codes h \<le> m')"
        using True by simp
      then show ?thesis by blast
    next
      assume "\<exists>pre post. G = pre @ b' # post \<and> m' = entropy_of codes b' \<and> ?e < m' \<and>
               (\<forall>h\<in>set pre. entropy_of codes h < m') \<and>
               (\<forall>h\<in>set post. entropy_of codes h \<le> m')"
      then obtain pre post where G: "G = pre @ b' # post" and m': "m' = entropy_of codes b'"
        and lt: "?e < m'" and pre: "\<forall>h\<in>set pre. entropy_of codes h < m'"
        and post: "\<forall>h\<in>set post. entropy_of codes h \<le> m'"
        by blast
      have "g # G = (g # pre) @ b' # post \<and> m' = entropy_of codes b' \<and> m < m' \<and>
               (\<forall>h\<in>set (g # pre). entropy_of codes h < m') \<and>
               (\<forall>h\<in>set post. entropy_of codes h \<le> m')"
        using G m' lt pre post True by simp
      then show ?thesis by blast
    qed
    with res step show ?thesis by simp
  next
    case False
    then have step: "select_loop_no_exit codes (g # G) m b = select_loop_no_exit codes G m b"
      unfolding no_exit_step [OF wf g ne] by (simp add: max_def)
    from Cons.IH [OF rest, of m b] obtain b' m' where
      res: "select_loop_no_exit codes G m b = Inr (b', m')" and
      alt: "(b' = b \<and> m' = m \<and> (\<forall>h\<in>set G. entropy_of codes h \<le> m)) \<or>
            (\<exists>pre post. G = pre @ b' # post \<and> m' = entropy_of codes b' \<and> m < m' \<and>
               (\<forall>h\<in>set pre. entropy_of codes h < m') \<and>
               (\<forall>h\<in>set post. entropy_of codes h \<le> m'))"
      by blast
    from alt have "(b' = b \<and> m' = m \<and> (\<forall>h\<in>set (g # G). entropy_of codes h \<le> m)) \<or>
            (\<exists>pre post. g # G = pre @ b' # post \<and> m' = entropy_of codes b' \<and> m < m' \<and>
               (\<forall>h\<in>set pre. entropy_of codes h < m') \<and>
               (\<forall>h\<in>set post. entropy_of codes h \<le> m'))"
    proof
      assume "b' = b \<and> m' = m \<and> (\<forall>h\<in>set G. entropy_of codes h \<le> m)"
      then show ?thesis using False by simp
    next
      assume "\<exists>pre post. G = pre @ b' # post \<and> m' = entropy_of codes b' \<and> m < m' \<and>
               (\<forall>h\<in>set pre. entropy_of codes h < m') \<and>
               (\<forall>h\<in>set post. entropy_of codes h \<le> m')"
      then obtain pre post where G: "G = pre @ b' # post" and m': "m' = entropy_of codes b'"
        and lt: "m < m'" and pre: "\<forall>h\<in>set pre. entropy_of codes h < m'"
        and post: "\<forall>h\<in>set post. entropy_of codes h \<le> m'"
        by blast
      have "g # G = (g # pre) @ b' # post \<and> m' = entropy_of codes b' \<and> m < m' \<and>
               (\<forall>h\<in>set (g # pre). entropy_of codes h < m') \<and>
               (\<forall>h\<in>set post. entropy_of codes h \<le> m')"
        using G m' lt pre post False by simp
      then show ?thesis by blast
    qed
    with res step show ?thesis by simp
  qed
qed

lemma getitem_first: "xs \<noteq> [] \<Longrightarrow> getitem xs 0 = Inr (xs ! 0)"
  by (simp add: getitem_def)

lemma initial_not_exit:
  assumes "codes \<noteq> []"
  shows "- 1 \<le> log 2 (real (length codes))"
    and "\<not> \<bar>- 1 - log 2 (real (length codes))\<bar> < 1 / 10 ^ 10"
  using ceiling_nonneg [OF assms] by simp_all

lemma best_guess_shape:
  assumes ne: "codes \<noteq> []" and wf: "\<forall>D\<in>set codes. 4 \<le> length D"
    and wfG: "\<forall>h\<in>set G. 4 \<le> length h"
  shows "\<exists>g e. find_best_guess codes G = Inr (g, e) \<and>
           find_best_guess_no_exit codes G = Inr (g, e) \<and>
           ((G = [] \<and> g = codes ! 0 \<and> e = - 1) \<or>
            (\<exists>pre post. G = pre @ g # post \<and> e = entropy_of codes g \<and>
               (\<forall>h\<in>set pre. entropy_of codes h < e) \<and>
               (\<forall>h\<in>set post. entropy_of codes h \<le> e)))"
proof -
  have same: "find_best_guess codes G = find_best_guess_no_exit codes G"
    unfolding find_best_guess_def find_best_guess_no_exit_def getitem_first [OF ne]
    using select_loops_agree [OF wf ne wfG initial_not_exit [OF ne]] by simp
  obtain g e where res: "select_loop_no_exit codes G (- 1) (codes ! 0) = Inr (g, e)"
    and alt: "(g = codes ! 0 \<and> e = - 1 \<and> (\<forall>h\<in>set G. entropy_of codes h \<le> - 1)) \<or>
            (\<exists>pre post. G = pre @ g # post \<and> e = entropy_of codes g \<and> - 1 < e \<and>
               (\<forall>h\<in>set pre. entropy_of codes h < e) \<and>
               (\<forall>h\<in>set post. entropy_of codes h \<le> e))"
    using no_exit_first_max [OF wf ne wfG, of "- 1" "codes ! 0"] by blast
  have noexit: "find_best_guess_no_exit codes G = Inr (g, e)"
    by (simp add: find_best_guess_no_exit_def getitem_first [OF ne] res)
  from alt have "(G = [] \<and> g = codes ! 0 \<and> e = - 1) \<or>
            (\<exists>pre post. G = pre @ g # post \<and> e = entropy_of codes g \<and>
               (\<forall>h\<in>set pre. entropy_of codes h < e) \<and>
               (\<forall>h\<in>set post. entropy_of codes h \<le> e))"
  proof
    assume a: "g = codes ! 0 \<and> e = - 1 \<and> (\<forall>h\<in>set G. entropy_of codes h \<le> - 1)"
    have "G = []"
    proof (cases G)
      case Nil
      then show ?thesis .
    next
      case (Cons h rest)
      with a have "entropy_of codes h \<le> - 1" by simp
      with entropy_of_nonneg [of codes h] show ?thesis by simp
    qed
    with a show ?thesis by simp
  next
    assume "\<exists>pre post. G = pre @ g # post \<and> e = entropy_of codes g \<and> - 1 < e \<and>
               (\<forall>h\<in>set pre. entropy_of codes h < e) \<and>
               (\<forall>h\<in>set post. entropy_of codes h \<le> e)"
    then show ?thesis by blast
  qed
  with same noexit show ?thesis by simp
qed

lemma entropy_of_single: "entropy_of [c] g = 0"
  using entropy_of_upper [of "[c]" g] entropy_of_nonneg [of "[c]" g] by simp

section \<open>The selector over the real numbers\<close>

text \<open>
  Over the real numbers the selector with the break removed returns the same pair as
  \<^verbatim>\<open>find_best_guess\<close>, and the guess is the first maximiser in the order of \<open>G\<close>. This is
  a fact of exact arithmetic only. The program accumulates doubles, where two guesses
  whose partitions have the same sizes in a different dictionary order can differ in the
  last bit (the counts 3, 1, 2 and 2, 1, 3 of six candidates do), and where the entropy
  of singleton groups can exceed \<^verbatim>\<open>math.log2(len(possible_codes))\<close>; which guess the
  program then keeps is decided by that rounding and is not what this lemma says.
\<close>

lemma early_exit_equivalent_real:
  assumes "C \<noteq> []" and "\<forall>D\<in>set C. 4 \<le> length D" and "\<forall>h\<in>set G. 4 \<le> length h"
  shows "\<exists>g e g' e'.
           find_best_guess C G = Inr (g, e) \<and>
           find_best_guess_no_exit C G = Inr (g', e') \<and>
           \<bar>e - e'\<bar> < 1 / 10 ^ 10 \<and> e' = e \<and> g' = g \<and>
           (G \<noteq> [] \<longrightarrow>
              (\<exists>pre post. G = pre @ g # post \<and> calculate_entropy C g = Inr e \<and>
                 (\<forall>h\<in>set pre. \<exists>eh. calculate_entropy C h = Inr eh \<and> eh < e) \<and>
                 (\<forall>h\<in>set post. \<exists>eh. calculate_entropy C h = Inr eh \<and> eh \<le> e)))"
proof -
  have ce: "calculate_entropy C h = Inr (entropy_of C h)" if "h \<in> set G" for h
    using that assms by (intro calculate_entropy_closed) simp_all
  obtain g e where 1: "find_best_guess C G = Inr (g, e)"
    and 2: "find_best_guess_no_exit C G = Inr (g, e)"
    and alt: "(G = [] \<and> g = C ! 0 \<and> e = - 1) \<or>
            (\<exists>pre post. G = pre @ g # post \<and> e = entropy_of C g \<and>
               (\<forall>h\<in>set pre. entropy_of C h < e) \<and>
               (\<forall>h\<in>set post. entropy_of C h \<le> e))"
    using best_guess_shape [OF assms] by blast
  have 3: "\<exists>pre post. G = pre @ g # post \<and> calculate_entropy C g = Inr e \<and>
                 (\<forall>h\<in>set pre. \<exists>eh. calculate_entropy C h = Inr eh \<and> eh < e) \<and>
                 (\<forall>h\<in>set post. \<exists>eh. calculate_entropy C h = Inr eh \<and> eh \<le> e)"
    if "G \<noteq> []"
  proof -
    from alt that obtain pre post where G: "G = pre @ g # post" and e: "e = entropy_of C g"
      and pre: "\<forall>h\<in>set pre. entropy_of C h < e" and post: "\<forall>h\<in>set post. entropy_of C h \<le> e"
      by blast
    have "calculate_entropy C g = Inr e"
      using ce [of g] G e by simp
    moreover have "\<forall>h\<in>set pre. \<exists>eh. calculate_entropy C h = Inr eh \<and> eh < e"
      using ce G pre by simp
    moreover have "\<forall>h\<in>set post. \<exists>eh. calculate_entropy C h = Inr eh \<and> eh \<le> e"
      using ce G post by simp
    ultimately show ?thesis using G by blast
  qed
  from 1 2 3 show ?thesis by simp
qed

section \<open>Properties of the selector\<close>

text \<open>
  Claim C8. When \<open>candidates\<close> and \<open>guess_space\<close> are non-empty (lists of strings of at
  least four characters), \<^verbatim>\<open>find_best_guess(candidates, guess_space)\<close> evaluates without
  error: \<^verbatim>\<open>candidates[0]\<close> and \<^verbatim>\<open>math.log2(len(candidates))\<close> are defined, and the guess of
  the returned pair is drawn from \<open>guess_space\<close>.
\<close>

theorem find_best_guess_total:
  assumes "candidates \<noteq> []" and "guess_space \<noteq> []"
    and "\<forall>D\<in>set candidates. 4 \<le> length D" and "\<forall>h\<in>set guess_space. 4 \<le> length h"
  shows "getitem candidates 0 = Inr (candidates ! 0) \<and>
         math_log2 (real (length candidates)) = Inr (log 2 (real (length candidates))) \<and>
         (\<exists>guess entropy. find_best_guess candidates guess_space = Inr (guess, entropy) \<and>
            guess \<in> set guess_space)"
proof -
  obtain g e where 1: "find_best_guess candidates guess_space = Inr (g, e)"
    and alt: "(guess_space = [] \<and> g = candidates ! 0 \<and> e = - 1) \<or>
            (\<exists>pre post. guess_space = pre @ g # post \<and> e = entropy_of candidates g \<and>
               (\<forall>h\<in>set pre. entropy_of candidates h < e) \<and>
               (\<forall>h\<in>set post. entropy_of candidates h \<le> e))"
    using best_guess_shape [OF assms(1,3,4)] by blast
  from alt assms(2) obtain pre post where "guess_space = pre @ g # post" by blast
  then have "g \<in> set guess_space" by simp
  with 1 show ?thesis
    by (simp add: getitem_first [OF assms(1)] ceiling_defined [OF assms(1)])
qed

theorem find_best_guess_total_witness:
  "\<exists>guess entropy. find_best_guess [''1234'', ''5678''] [''0123'', ''4567''] = Inr (guess, entropy) \<and>
      guess \<in> set [''0123'', ''4567'']"
  using find_best_guess_total [of "[''1234'', ''5678'']" "[''0123'', ''4567'']"]
  by simp

text \<open>
  Claim C10. For a single candidate \<open>c\<close> and a non-empty guess space whose first element
  is \<open>g0\<close>, \<^verbatim>\<open>find_best_guess([c], G)\<close> returns \<open>(g0, 0.0)\<close>: the entropy of any guess against
  one candidate is 0, the ceiling \<open>log2(1)\<close>, so the early exit fires on the first guess;
  the returned guess need not be \<open>c\<close>.
\<close>

theorem find_best_guess_single:
  assumes "4 \<le> length c" and "4 \<le> length g0"
  shows "find_best_guess [c] (g0 # rest) = Inr (g0, 0)"
proof -
  have wf: "\<forall>D\<in>set [c]. 4 \<le> length D" using assms(1) by simp
  have ne: "[c] \<noteq> []" by simp
  show ?thesis
    unfolding find_best_guess_def getitem_first [OF ne] select_loop_step [OF wf assms(2) ne]
    by (simp add: entropy_of_single)
qed

theorem find_best_guess_single_witness:
  "find_best_guess [''5678''] [''0123'', ''5678''] = Inr (''0123'', 0) \<and> ''0123'' \<noteq> ''5678''"
  using find_best_guess_single [of "''5678''" "''0123''" "[''5678'']"]
  by simp

end
